theory Spec2Isabelle
  imports Complex_Main "HOL-Library.Product_Lexorder" "HOL-Library.Multiset" "HOL-Library.Signed_Division"
begin

section \<open>Prism Sort: the glitch engine of prismsort.py\<close>

subsection \<open>Exceptions and the source of randomness\<close>

text \<open>
  The exceptions the engine raises or catches. A function that can raise returns
  \<open>py_error + 'a\<close>, with \<open>Inl\<close> for the exception.
\<close>

datatype py_error = IndexError | ValueError | ZeroDivisionError

text \<open>
  Python's module \<open>random\<close> is a collaborator of the script, not part of it. Its state is
  modelled as the infinite sequence of the uniform variates it will hand out, each a real
  number of the interval from 0 (included) to 1 (excluded); floats are idealised as reals.
  \<open>random()\<close> takes the next variate. \<open>randrange(start, stop)\<close> raises \<open>ValueError\<close> on
  an empty range, before it draws anything, and otherwise scales the next variate into
  the integers from \<open>start\<close> to \<open>stop - 1\<close>.
\<close>

type_synonym rng = "nat \<Rightarrow> real"

definition fair :: "rng \<Rightarrow> bool" where
  "fair g \<longleftrightarrow> (\<forall>n. 0 \<le> g n \<and> g n < 1)"

definition advance :: "rng \<Rightarrow> rng" where
  "advance g = (\<lambda>n. g (Suc n))"

definition random :: "rng \<Rightarrow> real \<times> rng" where
  "random g = (g 0, advance g)"

definition randrange :: "int \<Rightarrow> int \<Rightarrow> rng \<Rightarrow> py_error + (int \<times> rng)" where
  "randrange start stop g =
     (if stop \<le> start then Inl ValueError
      else Inr (start + \<lfloor>g 0 * of_int (stop - start)\<rfloor>, advance g))"

text \<open>\<open>probability(p)\<close>: \<open>True if random() < p else False\<close>.\<close>

definition probability :: "real \<Rightarrow> rng \<Rightarrow> bool \<times> rng" where
  "probability p g = (let (r, g') = random g in (r < p, g'))"

subsection \<open>The Randomized Partial Sorter\<close>

text \<open>
  \<open>partialSort(numList)\<close>. The slices \<open>ls[0:a]\<close>, \<open>ls[a:b]\<close>, \<open>ls[b:]\<close> and \<open>ls[a:]\<close> are
  \<open>take\<close> and \<open>drop\<close>: both bounds are non-negative. \<open>sorted\<close> is \<open>sort\<close>, on pixels with
  the lexicographic order of tuples.
\<close>

definition partialSort :: "'a::linorder list \<Rightarrow> rng \<Rightarrow> py_error + ('a list \<times> rng)" where
  "partialSort numList g =
     (let ls = numList in
      case randrange 0 (int (length ls) - 1) g of
        Inl e \<Rightarrow> Inl e
      | Inr (a', g1) \<Rightarrow>
          (case randrange (a' + 1) (int (length ls)) g1 of
             Inl e \<Rightarrow> Inl e
           | Inr (b', g2) \<Rightarrow>
               (let a = nat a'; b = nat b';
                    (asc, g3) = probability (1/2) g2;
                    (mid, g4) = probability (95/100) g3
                in if asc then
                     (if mid then Inr (take a ls @ sort (drop a (take b ls)) @ drop b ls, g4)
                      else Inr (sort (take b ls) @ drop b ls, g4))
                   else
                     (if mid then Inr (take a ls @ rev (sort (drop a (take b ls))) @ drop b ls, g4)
                      else Inr (take a ls @ rev (sort (drop a ls)), g4)))))"

text \<open>The bounds \<open>a\<close> and \<open>b\<close> that \<open>partialSort\<close> draws on a list of \<open>n\<close> items.\<close>

definition lower_bound :: "nat \<Rightarrow> rng \<Rightarrow> nat" where
  "lower_bound n g = nat \<lfloor>g 0 * of_int (int n - 1)\<rfloor>"

definition upper_bound :: "nat \<Rightarrow> rng \<Rightarrow> nat" where
  "upper_bound n g =
     nat (int (lower_bound n g) + 1 + \<lfloor>g 1 * of_int (int n - (int (lower_bound n g) + 1))\<rfloor>)"

text \<open>
  \<open>replaced lo hi new old res\<close>: the list \<open>res\<close> is \<open>old\<close> with the positions from \<open>lo\<close> to
  \<open>hi - 1\<close> replaced by \<open>new\<close>, every other position unchanged.
\<close>

definition replaced :: "nat \<Rightarrow> nat \<Rightarrow> 'a list \<Rightarrow> 'a list \<Rightarrow> 'a list \<Rightarrow> bool" where
  "replaced lo hi new old res \<longleftrightarrow>
     length res = length old \<and> lo \<le> hi \<and> hi \<le> length old \<and>
     drop lo (take hi res) = new \<and>
     (\<forall>i < length old. i < lo \<or> hi \<le> i \<longrightarrow> res ! i = old ! i)"

text \<open>
  A Pixel is the tuple of its red, green and blue values. Python compares tuples
  lexicographically, which is the order \<open>lex_le\<close> and the order of the product type.
\<close>

type_synonym pixel = "nat \<times> nat \<times> nat"

fun lex_le :: "pixel \<Rightarrow> pixel \<Rightarrow> bool" where
  "lex_le (r1, g1, b1) (r2, g2, b2) \<longleftrightarrow>
     r1 < r2 \<or> r1 = r2 \<and> (g1 < g2 \<or> g1 = g2 \<and> b1 \<le> b2)"

subsection \<open>The Canvas\<close>

text \<open>
  Modelled from the spec: the Image Buffer is Pillow's \<open>Image\<close>, a collaborator that is
  not part of the script. It is a raster with a width and a height that supports get and
  set of a pixel's colour at a coordinate pair (first coordinate along the width), both
  raising \<open>IndexError\<close> when the coordinates fall outside the Canvas, padding with a
  border of a solid colour, and cropping to a box.
\<close>

record canvas =
  width :: int
  height :: int
  pix :: "int \<times> int \<Rightarrow> pixel"

definition inside :: "canvas \<Rightarrow> int \<times> int \<Rightarrow> bool" where
  "inside im xy \<longleftrightarrow> 0 \<le> fst xy \<and> fst xy < width im \<and> 0 \<le> snd xy \<and> snd xy < height im"

definition getpixel :: "canvas \<Rightarrow> int \<times> int \<Rightarrow> py_error + pixel" where
  "getpixel im xy = (if inside im xy then Inr (pix im xy) else Inl IndexError)"

definition putpixel :: "canvas \<Rightarrow> int \<times> int \<Rightarrow> pixel \<Rightarrow> py_error + canvas" where
  "putpixel im xy v =
     (if inside im xy then Inr (im\<lparr>pix := (pix im)(xy := v)\<rparr>) else Inl IndexError)"

definition expand :: "canvas \<Rightarrow> int \<Rightarrow> canvas" where
  "expand im border =
     \<lparr>width = width im + 2 * border, height = height im + 2 * border,
      pix = (\<lambda>(x, y). if inside im (x - border, y - border)
                        then pix im (x - border, y - border) else (0, 0, 0))\<rparr>"


subsection \<open>The Line Corruption Engine\<close>

text \<open>
  The read loop of \<open>pixSort\<close>: \<open>line.append(image.getpixel((y, x)))\<close> for every \<open>x\<close>,
  leaving the loop at the first \<open>IndexError\<close>.
\<close>

fun read_line :: "canvas \<Rightarrow> int \<Rightarrow> int list \<Rightarrow> py_error + pixel list" where
  "read_line im y [] = Inr []"
| "read_line im y (x # xs) =
     (case getpixel im (y, x) of
        Inl IndexError \<Rightarrow> Inr []
      | Inl e \<Rightarrow> Inl e
      | Inr v \<Rightarrow> (case read_line im y xs of Inl e \<Rightarrow> Inl e | Inr vs \<Rightarrow> Inr (v # vs)))"

text \<open>\<open>try: line = partialSort(line)\<close>, \<open>except ValueError: pass\<close>.\<close>

definition sort_step :: "pixel list \<Rightarrow> rng \<Rightarrow> py_error + (pixel list \<times> rng)" where
  "sort_step line g =
     (case partialSort line g of
        Inl ValueError \<Rightarrow> Inr (line, g)
      | Inl e \<Rightarrow> Inl e
      | Inr r \<Rightarrow> Inr r)"

text \<open>
  The loop that restores one channel: for every \<open>px\<close> in \<open>range(len(line))\<close>, the pixel
  \<open>line[px]\<close> takes the channel \<open>colour\<close> of \<open>originalLine[px]\<close> and keeps its two others.
  Reading \<open>originalLine\<close> beyond its end would raise \<open>IndexError\<close>.
\<close>

definition restore_channel :: "int \<Rightarrow> pixel list \<Rightarrow> pixel list \<Rightarrow> py_error + pixel list" where
  "restore_channel colour originalLine line =
     (if length originalLine < length line then Inl IndexError
      else Inr (map (\<lambda>px.
             (if colour = 0 then fst (originalLine ! px) else fst (line ! px),
              if colour = 1 then fst (snd (originalLine ! px)) else fst (snd (line ! px)),
              if colour = 2 then snd (snd (originalLine ! px)) else snd (snd (line ! px))))
           [0..<length line]))"

definition restore_step ::
  "real \<Rightarrow> pixel list \<Rightarrow> pixel list \<Rightarrow> rng \<Rightarrow> py_error + (pixel list \<times> rng)" where
  "restore_step p originalLine line g =
     (let (hit, g1) = probability (p * (75/100)) g in
      if hit then
        (case randrange 0 3 g1 of
           Inl e \<Rightarrow> Inl e
         | Inr (colour, g2) \<Rightarrow>
             (case restore_channel colour originalLine line of
                Inl e \<Rightarrow> Inl e
              | Inr line' \<Rightarrow> Inr (line', g2)))
      else Inr (line, g1))"

text \<open>
  The row offset of one write: \<open>randrange(1, 3) if probability(0.1) and DITHER else 1\<close>.
\<close>

definition row_offset :: "bool \<Rightarrow> rng \<Rightarrow> py_error + (int \<times> rng)" where
  "row_offset dither g =
     (let (hit, g1) = probability (1/10) g in
      if hit \<and> dither then randrange 1 3 g1 else Inr (1, g1))"

text \<open>
  The write loop: for every \<open>x\<close> in \<open>range(len(line))\<close>, put \<open>line[x]\<close> at
  \<open>(y + offset, startW + x)\<close>, leaving the loop at the first \<open>IndexError\<close>. The list argument
  holds the pixels from index \<open>x\<close> on.
\<close>

fun write_back ::
  "bool \<Rightarrow> canvas \<Rightarrow> int \<Rightarrow> int \<Rightarrow> nat \<Rightarrow> pixel list \<Rightarrow> rng \<Rightarrow> py_error + (canvas \<times> rng)" where
  "write_back dither im y startW x [] g = Inr (im, g)"
| "write_back dither im y startW x (v # vs) g =
     (case row_offset dither g of
        Inl e \<Rightarrow> Inl e
      | Inr (offset, g1) \<Rightarrow>
          (case putpixel im (y + offset, startW + int x) v of
             Inl IndexError \<Rightarrow> Inr (im, g1)
           | Inl e \<Rightarrow> Inl e
           | Inr im' \<Rightarrow> write_back dither im' y startW (Suc x) vs g1))"

text \<open>The body of the loop of \<open>pixSort\<close> over the rows \<open>y\<close>.\<close>

definition pixSort_row ::
  "bool \<Rightarrow> canvas \<Rightarrow> int \<Rightarrow> int \<Rightarrow> real \<Rightarrow> int \<Rightarrow> rng \<Rightarrow> py_error + (canvas \<times> rng)" where
  "pixSort_row dither im startW endW p y g =
     (let (hit, g1) = probability p g in
      if hit then
        (case read_line im y [startW..endW - 1] of
           Inl e \<Rightarrow> Inl e
         | Inr line \<Rightarrow>
             (let originalLine = line in
              case sort_step line g1 of
                Inl e \<Rightarrow> Inl e
              | Inr (line1, g2) \<Rightarrow>
                  (case restore_step p originalLine line1 g2 of
                     Inl e \<Rightarrow> Inl e
                   | Inr (line2, g3) \<Rightarrow> write_back dither im y startW 0 line2 g3)))
      else Inr (im, g1))"

fun pixSort_rows ::
  "bool \<Rightarrow> canvas \<Rightarrow> int \<Rightarrow> int \<Rightarrow> real \<Rightarrow> int list \<Rightarrow> rng \<Rightarrow> py_error + (canvas \<times> rng)" where
  "pixSort_rows dither im startW endW p [] g = Inr (im, g)"
| "pixSort_rows dither im startW endW p (y # ys) g =
     (case pixSort_row dither im startW endW p y g of
        Inl e \<Rightarrow> Inl e
      | Inr (im', g') \<Rightarrow> pixSort_rows dither im' startW endW p ys g')"

text \<open>
  \<open>pixSort(image, startW, startH, endW, endH, p)\<close>, with the global \<open>DITHER\<close> first. The
  call \<open>progress(y)\<close> only prints to the console and is left out.
\<close>

definition pixSort ::
  "bool \<Rightarrow> canvas \<Rightarrow> int \<Rightarrow> int \<Rightarrow> int \<Rightarrow> int \<Rightarrow> real \<Rightarrow> rng \<Rightarrow> py_error + (canvas \<times> rng)" where
  "pixSort dither im startW startH endW endH p g =
     pixSort_rows dither im startW endW p [startH..endH - 1] g"

subsection \<open>The Block Tiling Driver\<close>

text \<open>The module-level parameters of the script, fixed before \<open>main\<close> runs.\<close>

record config =
  IMAGE_WIDTH :: int
  IMAGE_HEIGHT :: int
  BLOCKS :: int
  INTENSITY :: int
  DITHER :: bool
  ROTATION :: int
  FUZZY_EDGES :: bool

text \<open>
  The failsafe of the script's start-up:
  \<open>INTENSITY = INTENSITY if BLOCKS + INTENSITY >= 3 else 3 - BLOCKS\<close>.
\<close>

definition clamp_intensity :: "int \<Rightarrow> int \<Rightarrow> int" where
  "clamp_intensity blocks intensity = (if blocks + intensity \<ge> 3 then intensity else 3 - blocks)"

text \<open>
  The argument \<open>p\<close> of a block:
  \<open>1 - (blocks**2 / (blocks + 1)**2) ** randrange(blocks - 4 + INTENSITY, blocks - 1 + INTENSITY)\<close>.
  The quotient raises \<open>ZeroDivisionError\<close> on a zero divisor, and so does a zero base
  with a negative exponent.
\<close>

definition block_probability :: "int \<Rightarrow> int \<Rightarrow> rng \<Rightarrow> py_error + (real \<times> rng)" where
  "block_probability blocks intensity g =
     (if (blocks + 1)\<^sup>2 = 0 then Inl ZeroDivisionError
      else
        (let base = real_of_int (blocks\<^sup>2) / real_of_int ((blocks + 1)\<^sup>2) in
         case randrange (blocks - 4 + intensity) (blocks - 1 + intensity) g of
           Inl e \<Rightarrow> Inl e
         | Inr (k, g') \<Rightarrow>
             if base = 0 \<and> k < 0 then Inl ZeroDivisionError
             else Inr (1 - base powi k, g')))"

text \<open>
  \<open>int(x / blocks)\<close> and \<open>int(x * 2/3)\<close> truncate towards zero, which is \<open>sdiv\<close>. The
  stride of a loop is \<open>int(block * 2/3) if blocks > 1 else block\<close>.
\<close>

definition stride :: "int \<Rightarrow> int \<Rightarrow> int" where
  "stride blocks block = (if blocks > 1 then (block * 2) sdiv 3 else block)"

text \<open>
  Both loops of \<open>glitch\<close> have the shape
  \<open>while current + block * 2/3 <= limit: body; current += step\<close>. A loop that runs
  forever has the value \<open>None\<close>; an exception of the body leaves the loop.
\<close>

partial_function (option) tile_loop ::
  "int \<Rightarrow> int \<Rightarrow> int \<Rightarrow> (int \<Rightarrow> 's \<Rightarrow> (py_error + 's) option) \<Rightarrow> int \<Rightarrow> 's \<Rightarrow>
   (py_error + 's) option" where
  "tile_loop block limit step body current s =
     (if real_of_int current + real_of_int (block * 2) / 3 \<le> real_of_int limit then
        Option.bind (body current s)
          (\<lambda>r. case r of
                 Inl e \<Rightarrow> Some (Inl e)
               | Inr s' \<Rightarrow> tile_loop block limit step body (current + step) s')
      else Some (Inr s))"

text \<open>
  The nested loops of \<open>glitch\<close>, the outer one on \<open>currentHeight\<close> and the inner one on
  \<open>currentWidth\<close>, both from 0. What is done at a block is the parameter \<open>act\<close>.
\<close>

definition tiling ::
  "config \<Rightarrow> int \<Rightarrow> int \<Rightarrow> int \<Rightarrow> (int \<Rightarrow> int \<Rightarrow> 's \<Rightarrow> (py_error + 's) option) \<Rightarrow> 's \<Rightarrow>
   (py_error + 's) option" where
  "tiling cfg blocks wBlock hBlock act s =
     tile_loop hBlock
       ((if IMAGE_HEIGHT cfg \<ge> IMAGE_WIDTH cfg then IMAGE_HEIGHT cfg else IMAGE_WIDTH cfg) * 2)
       (stride blocks hBlock)
       (\<lambda>currentHeight s1.
          tile_loop wBlock
            ((if IMAGE_WIDTH cfg \<ge> IMAGE_HEIGHT cfg then IMAGE_WIDTH cfg else IMAGE_HEIGHT cfg) * 2)
            (stride blocks wBlock)
            (\<lambda>currentWidth s2. act currentHeight currentWidth s2) 0 s1)
       0 s"

text \<open>
  The body of the inner loop: \<open>image = pixSort(image, currentHeight, currentWidth,
  currentHeight + hBlock, currentWidth + wBlock, p=...)\<close>.
\<close>

definition glitch_block ::
  "config \<Rightarrow> int \<Rightarrow> int \<Rightarrow> int \<Rightarrow> int \<Rightarrow> int \<Rightarrow> canvas \<times> rng \<Rightarrow>
   (py_error + canvas \<times> rng) option" where
  "glitch_block cfg blocks wBlock hBlock currentHeight currentWidth s =
     (case s of (im, g) \<Rightarrow>
        (case block_probability blocks (INTENSITY cfg) g of
           Inl e \<Rightarrow> Some (Inl e)
         | Inr (p, g1) \<Rightarrow>
             Some (pixSort (DITHER cfg) im currentHeight currentWidth
                     (currentHeight + hBlock) (currentWidth + wBlock) p g1)))"

text \<open>
  The canvas that the loops of \<open>glitch\<close> run over: the image, rotated when the angle is
  not 0, with a black border when the angle is 0 or 90 degrees either way. Pillow's
  \<open>rotate\<close> is the parameter \<open>rot\<close>.
\<close>

definition glitch_canvas :: "(int \<Rightarrow> canvas \<Rightarrow> canvas) \<Rightarrow> config \<Rightarrow> canvas \<Rightarrow> int \<Rightarrow> int \<Rightarrow> canvas" where
  "glitch_canvas rot cfg im blocks rotation =
     (let wBlock = IMAGE_WIDTH cfg sdiv blocks; hBlock = IMAGE_HEIGHT cfg sdiv blocks;
          im1 = (if rotation \<noteq> 0 then rot rotation im else im)
      in if rotation = 0 \<or> \<bar>rotation\<bar> = 90
         then expand im1 (if wBlock \<ge> hBlock then wBlock else hBlock)
         else im1)"

text \<open>\<open>glitch(image, blocks, rotation)\<close>.\<close>

definition glitch ::
  "(int \<Rightarrow> canvas \<Rightarrow> canvas) \<Rightarrow> config \<Rightarrow> canvas \<Rightarrow> int \<Rightarrow> int \<Rightarrow> rng \<Rightarrow>
   (py_error + canvas \<times> rng) option" where
  "glitch rot cfg im blocks rotation g =
     (if blocks = 0 then Some (Inl ZeroDivisionError)
      else
        (let wBlock = IMAGE_WIDTH cfg sdiv blocks; hBlock = IMAGE_HEIGHT cfg sdiv blocks in
         Option.bind
           (tiling cfg blocks wBlock hBlock (glitch_block cfg blocks wBlock hBlock)
              (glitch_canvas rot cfg im blocks rotation, g))
           (\<lambda>r. case r of
                  Inl e \<Rightarrow> Some (Inl e)
                | Inr (im3, g') \<Rightarrow>
                    Some (Inr (if rotation \<noteq> 0 then rot (- rotation) im3 else im3, g')))))"



subsection \<open>The Rotation/Crop Compensator\<close>




text \<open>The channel \<open>c\<close> of a pixel: 0 is red, 1 is green, 2 is blue.\<close>

definition channel :: "int \<Rightarrow> pixel \<Rightarrow> nat" where
  "channel c v = (if c = 0 then fst v else if c = 1 then fst (snd v) else snd (snd v))"

subsection \<open>Concrete inputs\<close>

definition demo_rng :: rng where
  "demo_rng = (\<lambda>n. if n = 0 then 0 else if n = 1 then 3/4 else 1/4)"

definition demo_line :: "pixel list" where
  "demo_line = [(3,1,2), (1,2,3), (2,0,0)]"

definition strip_canvas :: canvas where
  "strip_canvas = \<lparr>width = 3, height = 1, pix = (\<lambda>xy. if xy = (0, 0) then (9, 9, 9) else (0, 0, 0))\<rparr>"

definition square_canvas :: canvas where
  "square_canvas = \<lparr>width = 2, height = 2, pix = (\<lambda>xy. (0, 0, 0))\<rparr>"

definition demo_cfg :: config where
  "demo_cfg = \<lparr>IMAGE_WIDTH = 2, IMAGE_HEIGHT = 2, BLOCKS = 1, INTENSITY = 0, DITHER = False,
                ROTATION = 0, FUZZY_EDGES = False\<rparr>"



subsection \<open>Facts about the randomness source\<close>

lemma fair_advance: "fair g \<Longrightarrow> fair (advance g)"
  by (simp add: fair_def advance_def)

lemma scaled_variate_range:
  fixes u :: real and n :: int
  assumes "0 \<le> u" "u < 1" "0 < n"
  shows "0 \<le> \<lfloor>u * of_int n\<rfloor> \<and> \<lfloor>u * of_int n\<rfloor> < n"
proof
  from assms show "0 \<le> \<lfloor>u * of_int n\<rfloor>" by simp
  from assms have "u * of_int n < of_int n" by simp
  then show "\<lfloor>u * of_int n\<rfloor> < n" by (simp add: floor_less_iff)
qed

lemma randrange_range:
  assumes "fair g" "start < stop"
  shows "\<exists>k. randrange start stop g = Inr (k, advance g) \<and> start \<le> k \<and> k < stop"
proof -
  from assms(1) have "0 \<le> g 0" "g 0 < 1" by (simp_all add: fair_def)
  with assms(2) scaled_variate_range [of "g 0" "stop - start"]
  show ?thesis by (simp add: randrange_def)
qed

subsection \<open>Properties of the Partial Sorter\<close>

lemma replaced_middle:
  assumes "a \<le> b" "b \<le> length ls" "length new = b - a"
  shows "replaced a b new ls (take a ls @ new @ drop b ls)"
  using assms unfolding replaced_def
  by (auto simp: nth_append min_def)

lemma bounds_in_range:
  assumes "2 \<le> n" "fair g"
  shows "lower_bound n g \<le> n - 2 \<and> lower_bound n g + 1 \<le> upper_bound n g \<and> upper_bound n g \<le> n - 1"
proof -
  from assms(2) have g0: "0 \<le> g 0" "g 0 < 1" and g1: "0 \<le> g 1" "g 1 < 1"
    by (simp_all add: fair_def)
  define a where "a = \<lfloor>g 0 * of_int (int n - 1)\<rfloor>"
  from assms(1) g0 scaled_variate_range [of "g 0" "int n - 1"]
  have a: "0 \<le> a" "a < int n - 1" by (simp_all add: a_def)
  define d where "d = \<lfloor>g 1 * of_int (int n - (a + 1))\<rfloor>"
  from a g1 scaled_variate_range [of "g 1" "int n - (a + 1)"]
  have d: "0 \<le> d" "d < int n - (a + 1)" by (simp_all add: d_def)
  have la: "int (lower_bound n g) = a" using a by (simp add: lower_bound_def a_def)
  have ub: "int (upper_bound n g) = a + 1 + d"
    using a d unfolding upper_bound_def la d_def by simp
  from la ub a d show ?thesis by linarith
qed

lemma partialSort_unfold:
  assumes "2 \<le> length ls" "fair g"
  shows "partialSort ls g =
     (let a = lower_bound (length ls) g; b = upper_bound (length ls) g;
          g4 = advance (advance (advance (advance g)))
      in if g 2 < 1/2 then
           (if g 3 < 95/100 then Inr (take a ls @ sort (drop a (take b ls)) @ drop b ls, g4)
            else Inr (sort (take b ls) @ drop b ls, g4))
         else
           (if g 3 < 95/100 then Inr (take a ls @ rev (sort (drop a (take b ls))) @ drop b ls, g4)
            else Inr (take a ls @ rev (sort (drop a ls)), g4)))"
proof -
  from assms(2) have g0: "0 \<le> g 0" "g 0 < 1" by (simp_all add: fair_def)
  define a where "a = \<lfloor>g 0 * of_int (int (length ls) - 1)\<rfloor>"
  from assms(1) g0 scaled_variate_range [of "g 0" "int (length ls) - 1"]
  have a: "0 \<le> a" "a < int (length ls) - 1" by (simp_all add: a_def)
  have r1: "randrange 0 (int (length ls) - 1) g = Inr (a, advance g)"
    using assms(1) by (simp add: randrange_def a_def)
  have r2: "randrange (a + 1) (int (length ls)) (advance g) =
      Inr (a + 1 + \<lfloor>g 1 * of_int (int (length ls) - (a + 1))\<rfloor>, advance (advance g))"
    using a by (simp add: randrange_def advance_def)
  have la: "nat a = lower_bound (length ls) g" by (simp add: lower_bound_def a_def)
  have ub: "nat (a + 1 + \<lfloor>g 1 * of_int (int (length ls) - (a + 1))\<rfloor>) = upper_bound (length ls) g"
    using a unfolding upper_bound_def la [symmetric] by simp
  have p1: "probability (1/2) (advance (advance g)) = (g 2 < 1/2, advance (advance (advance g)))"
    by (simp add: probability_def random_def advance_def numeral_2_eq_2)
  have p2: "probability (95/100) (advance (advance (advance g))) =
      (g 3 < 95/100, advance (advance (advance (advance g))))"
    by (simp add: probability_def random_def advance_def numeral_3_eq_3)
  show ?thesis
    unfolding partialSort_def Let_def r1 sum.case prod.case r2 p1 p2 la ub by simp
qed


lemma lex_le_is_le: "lex_le p q \<longleftrightarrow> p \<le> q"
  by (cases p; cases q) auto

lemma sort_lexicographic: "sorted_wrt lex_le (sort (seg :: pixel list)) \<and> mset (sort seg) = mset seg"
proof -
  have "lex_le = (\<le>)" by (intro ext) (rule lex_le_is_le)
  then show ?thesis by simp
qed

text \<open>
  C1. On a list of at least two items, \<open>partialSort\<close> draws \<open>a\<close> between \<open>0\<close> and \<open>N - 2\<close> and
  \<open>b\<close> between \<open>a + 1\<close> and \<open>N - 1\<close>, then two Bernoulli trials with the thresholds 0.5 and
  0.95, and returns the input with exactly one replacement: the range from \<open>a\<close> to \<open>b\<close> by its
  ascending sort, the prefix up to \<open>b\<close> by its ascending sort, the range from \<open>a\<close> to \<open>b\<close> by
  the reverse of its ascending sort, or the suffix from \<open>a\<close> by the reverse of its ascending
  sort. Every position outside the replaced range is unchanged, and the sort is a
  rearrangement that is ascending in the lexicographic order of the (R,G,B) tuples.
\<close>

theorem partialSort_four_cases:
  fixes ls :: "pixel list"
  assumes "2 \<le> length ls" "fair g"
  shows "\<exists>res a b. partialSort ls g = Inr (res, advance (advance (advance (advance g)))) \<and>
           a = lower_bound (length ls) g \<and> b = upper_bound (length ls) g \<and>
           a \<le> length ls - 2 \<and> a + 1 \<le> b \<and> b \<le> length ls - 1 \<and>
           (if g 2 < 1/2 then
              (if g 3 < 95/100 then replaced a b (sort (drop a (take b ls))) ls res
               else replaced 0 b (sort (take b ls)) ls res)
            else
              (if g 3 < 95/100 then replaced a b (rev (sort (drop a (take b ls)))) ls res
               else replaced a (length ls) (rev (sort (drop a ls))) ls res)) \<and>
           (\<forall>seg :: pixel list. sorted_wrt lex_le (sort seg) \<and> mset (sort seg) = mset seg)"
proof -
  define a where "a = lower_bound (length ls) g"
  define b where "b = upper_bound (length ls) g"
  from bounds_in_range [OF assms] have ab: "a \<le> length ls - 2" "a + 1 \<le> b" "b \<le> length ls - 1"
    by (simp_all add: a_def b_def)
  with assms(1) have le: "a \<le> b" "b \<le> length ls" "a \<le> length ls" by linarith+
  have m1: "replaced a b (sort (drop a (take b ls))) ls (take a ls @ sort (drop a (take b ls)) @ drop b ls)"
    using le by (intro replaced_middle) simp_all
  have m2: "replaced 0 b (sort (take b ls)) ls (sort (take b ls) @ drop b ls)"
    using replaced_middle [of 0 b ls "sort (take b ls)"] le by simp
  have m3: "replaced a b (rev (sort (drop a (take b ls)))) ls
              (take a ls @ rev (sort (drop a (take b ls))) @ drop b ls)"
    using le by (intro replaced_middle) simp_all
  have m4: "replaced a (length ls) (rev (sort (drop a ls))) ls (take a ls @ rev (sort (drop a ls)))"
    using replaced_middle [of a "length ls" ls "rev (sort (drop a ls))"] le by simp
  show ?thesis
    unfolding partialSort_unfold [OF assms] Let_def
    using ab m1 m2 m3 m4 sort_lexicographic by (auto simp: a_def b_def)
qed

theorem partialSort_four_cases_witness:
  "2 \<le> length demo_line \<and> fair demo_rng \<and>
   (\<exists>res. partialSort demo_line demo_rng =
            Inr (res, advance (advance (advance (advance demo_rng)))) \<and>
          replaced 0 2 [(1,2,3), (3,1,2)] demo_line res)"
proof -
  have f: "fair demo_rng" by (simp add: demo_rng_def fair_def)
  have l: "2 \<le> length demo_line" by (simp add: demo_line_def)
  have a: "lower_bound (length demo_line) demo_rng = 0"
    by (simp add: demo_rng_def demo_line_def lower_bound_def)
  have b: "upper_bound (length demo_line) demo_rng = 2"
    by (simp add: demo_rng_def demo_line_def lower_bound_def upper_bound_def)
  have g: "(demo_rng 2 < 1/2) = True" "(demo_rng 3 < 95/100) = True"
    by (simp_all add: demo_rng_def)
  have s: "sort (drop 0 (take 2 demo_line)) = [(1,2,3), (3,1,2)]" by (simp add: demo_line_def)
  from partialSort_four_cases [OF l f] obtain res where
    r: "partialSort demo_line demo_rng = Inr (res, advance (advance (advance (advance demo_rng))))"
    and c: "replaced 0 2 (sort (drop 0 (take 2 demo_line))) demo_line res"
    unfolding a b g if_True by blast
  from c have "replaced 0 2 [(1,2,3), (3,1,2)] demo_line res" unfolding s .
  with r f l show ?thesis by blast
qed

text \<open>
  C3, as the code has it. On a list of fewer than two items \<open>partialSort\<close> does not return:
  the first \<open>randrange\<close> is given an empty range and raises \<open>ValueError\<close>. The caller
  \<open>pixSort\<close> catches it.
\<close>

theorem partialSort_short_raises:
  "length ls < 2 \<Longrightarrow> partialSort ls g = Inl ValueError"
  by (simp add: partialSort_def randrange_def)

theorem partialSort_short_raises_witness:
  "length [(7,7,7::nat)] < 2 \<and> partialSort [(7,7,7::nat)] demo_rng = Inl ValueError"
  using partialSort_short_raises [of "[(7,7,7::nat)]" demo_rng] by simp

text \<open>
  C3, as stated, fails: on a list of one pixel \<open>partialSort\<close> returns no list at all.
\<close>

theorem partialSort_short_counterexample:
  "\<not> (\<exists>g'. partialSort [(7,7,7::nat)] demo_rng = Inr ([(7,7,7)], g'))"
  by (simp add: partialSort_def randrange_def)


subsection \<open>Properties of the Line Corruption Engine\<close>

lemma probability_eq: "probability p g = (g 0 < p, advance g)"
  by (simp add: probability_def random_def)

lemma advance_0: "advance g 0 = g 1"
  by (simp add: advance_def)

lemma row_offset_eq:
  "row_offset dither g =
     (if g 0 < 1/10 \<and> dither then Inr (1 + \<lfloor>g 1 * 2\<rfloor>, advance (advance g))
      else Inr (1, advance g))"
  by (simp add: row_offset_def probability_eq randrange_def advance_0)

lemma row_offset_total: "\<exists>off g1. row_offset dither g = Inr (off, g1)"
  by (simp add: row_offset_eq)

lemma read_line_total: "\<exists>line. read_line im y xs = Inr line"
proof (induction xs)
  case Nil
  show ?case by simp
next
  case (Cons x xs)
  then obtain line where "read_line im y xs = Inr line" by blast
  then show ?case by (simp add: getpixel_def)
qed

lemma write_back_total: "\<exists>im' g'. write_back dither im y startW x vs g = Inr (im', g')"
proof (induction vs arbitrary: im x g)
  case Nil
  show ?case by simp
next
  case (Cons v vs)
  obtain off g1 where ro: "row_offset dither g = Inr (off, g1)"
    using row_offset_total by blast
  show ?case
  proof (cases "inside im (y + off, startW + int x)")
    case True
    with ro Cons.IH show ?thesis by (simp add: putpixel_def)
  next
    case False
    with ro show ?thesis by (simp add: putpixel_def)
  qed
qed

lemma sort_step_short: "length line < 2 \<Longrightarrow> sort_step line g = Inr (line, g)"
  by (simp add: sort_step_def partialSort_def randrange_def)

lemma restore_step_total:
  "length originalLine = length line \<Longrightarrow>
   \<exists>line' g'. restore_step p originalLine line g = Inr (line', g') \<and> length line' = length line"
  by (simp add: restore_step_def probability_eq randrange_def restore_channel_def)

lemma fair_demo_rng: "fair demo_rng"
  by (simp add: fair_def demo_rng_def)

lemma upto_0_2: "[0..2] = [0, 1, 2::int]"
  by (simp add: upto.simps)

lemma strip_read: "read_line strip_canvas 0 [0..3 - 1] = Inr [(9, 9, 9)]"
  by (simp add: upto_0_2 getpixel_def inside_def strip_canvas_def)

lemma write_back_step:
  "write_back dither im y startW x (v # vs) g =
     (case row_offset dither g of
        Inl e \<Rightarrow> Inl e
      | Inr (off, g1) \<Rightarrow>
          if inside im (y + off, startW + int x)
          then write_back dither (im\<lparr>pix := (pix im)((y + off, startW + int x) := v)\<rparr>)
                 y startW (Suc x) vs g1
          else Inr (im, g1))"
  by (simp add: putpixel_def split: sum.splits prod.splits)


lemma demo_offsets:
  "row_offset True demo_rng = Inr (2, advance (advance demo_rng))"
  "row_offset True (advance (advance demo_rng)) = Inr (1, advance (advance (advance demo_rng)))"
  by (simp_all add: row_offset_eq demo_rng_def advance_def)

text \<open>
  C6. When the Line that \<open>pixSort\<close> read has fewer than two pixels, the \<open>ValueError\<close> of
  \<open>partialSort\<close> is caught: the Line passes through unsorted, the channel restore and the
  write-back run on it, and the row ends without an exception.
\<close>

theorem short_line_passes_through:
  assumes "g 0 < p" "read_line im y [startW..endW - 1] = Inr line" "length line < 2"
  shows "sort_step line (advance g) = Inr (line, advance g) \<and>
         (\<exists>line2 g3 im' g'.
            restore_step p line line (advance g) = Inr (line2, g3) \<and>
            write_back dither im y startW 0 line2 g3 = Inr (im', g') \<and>
            pixSort_row dither im startW endW p y g = Inr (im', g'))"
proof -
  have s: "sort_step line (advance g) = Inr (line, advance g)"
    using assms(3) by (rule sort_step_short)
  obtain line2 g3 where r: "restore_step p line line (advance g) = Inr (line2, g3)"
    using restore_step_total [of line line] by blast
  obtain im' g' where w: "write_back dither im y startW 0 line2 g3 = Inr (im', g')"
    using write_back_total by blast
  have "pixSort_row dither im startW endW p y g = Inr (im', g')"
    using assms(1,2) s r w by (simp add: pixSort_row_def probability_eq)
  with s r w show ?thesis by blast
qed

theorem short_line_passes_through_witness:
  "demo_rng 0 < 1/2 \<and> read_line strip_canvas 0 [0..3 - 1] = Inr [(9, 9, 9)] \<and>
   length [(9, 9, 9) :: pixel] < 2 \<and>
   sort_step [(9, 9, 9)] (advance demo_rng) = Inr ([(9, 9, 9)], advance demo_rng) \<and>
   (\<exists>r. pixSort_row False strip_canvas 0 3 (1/2) 0 demo_rng = Inr r)"
proof -
  have h: "demo_rng 0 < 1/2" by (simp add: demo_rng_def)
  have l: "length [(9, 9, 9) :: pixel] < 2" by simp
  from short_line_passes_through
    [where g = demo_rng and p = "1/2" and im = strip_canvas and y = 0 and startW = 0
       and endW = 3 and line = "[(9, 9, 9)]" and dither = False, OF h strip_read l]
    h strip_read l
  show ?thesis by blast
qed

text \<open>
  C7. When the channel restore triggers (the variate is below \<open>0.75 * p\<close>), one channel
  index is drawn from 0, 1 and 2, and every pixel of the resulting Line has that one
  channel from the original Line and the two other channels from the sorted Line.
\<close>

theorem restore_step_one_channel:
  assumes "g 0 < p * (75/100)" "fair g" "length originalLine = length line"
  shows "\<exists>colour line'. colour \<in> {0, 1, 2} \<and> colour = \<lfloor>g 1 * 3\<rfloor> \<and>
           restore_step p originalLine line g = Inr (line', advance (advance g)) \<and>
           length line' = length line \<and>
           (\<forall>px < length line. \<forall>c \<in> {0, 1, 2}.
              channel c (line' ! px) =
                (if c = colour then channel c (originalLine ! px) else channel c (line ! px)))"
proof -
  define colour where "colour = \<lfloor>g 1 * 3\<rfloor>"
  from assms(2) have "0 \<le> g 1" "g 1 < 1" by (simp_all add: fair_def)
  with scaled_variate_range [of "g 1" 3] have "0 \<le> colour" "colour < 3"
    by (simp_all add: colour_def)
  then have "colour = 0 \<or> colour = 1 \<or> colour = 2" by linarith
  then have c: "colour \<in> {0, 1, 2}" by simp
  have r: "randrange 0 3 (advance g) = Inr (colour, advance (advance g))"
    by (simp add: randrange_def advance_0 colour_def)
  define line' where "line' = map (\<lambda>px.
             (if colour = 0 then fst (originalLine ! px) else fst (line ! px),
              if colour = 1 then fst (snd (originalLine ! px)) else fst (snd (line ! px)),
              if colour = 2 then snd (snd (originalLine ! px)) else snd (snd (line ! px))))
           [0..<length line]"
  have p: "probability (p * (75/100)) g = (True, advance g)"
    using assms(1) by (simp add: probability_eq)
  have rc: "restore_channel colour originalLine line = Inr line'"
    using assms(3) by (simp add: restore_channel_def line'_def)
  have rs: "restore_step p originalLine line g = Inr (line', advance (advance g))"
    using assms(1) by (simp add: restore_step_def probability_eq r rc)
  have len: "length line' = length line" by (simp add: line'_def)
  have ch: "channel c (line' ! px) =
                (if c = colour then channel c (originalLine ! px) else channel c (line ! px))"
    if "px < length line" "c \<in> {0, 1, 2}" for px c
  proof -
    have "line' ! px =
             (if colour = 0 then fst (originalLine ! px) else fst (line ! px),
              if colour = 1 then fst (snd (originalLine ! px)) else fst (snd (line ! px)),
              if colour = 2 then snd (snd (originalLine ! px)) else snd (snd (line ! px)))"
      using that(1) by (simp add: line'_def)
    moreover from that(2) have "c = 0 \<or> c = 1 \<or> c = 2" by simp
    ultimately show ?thesis by (elim disjE) (simp_all add: channel_def)
  qed
  from c rs len ch show ?thesis unfolding colour_def by blast
qed

theorem restore_step_one_channel_witness:
  "demo_rng 0 < 1/2 * (75/100) \<and> fair demo_rng \<and> length demo_line = length (rev demo_line) \<and>
   (\<exists>line'. restore_step (1/2) demo_line (rev demo_line) demo_rng =
               Inr (line', advance (advance demo_rng)) \<and>
             channel 2 (line' ! 0) = channel 2 (demo_line ! 0) \<and>
             channel 0 (line' ! 0) = channel 0 (rev demo_line ! 0))"
proof -
  have h: "demo_rng 0 < 1/2 * (75/100)" by (simp add: demo_rng_def)
  have l: "length demo_line = length (rev demo_line)" by simp
  have c: "\<lfloor>demo_rng 1 * 3\<rfloor> = 2" by (simp add: demo_rng_def)
  have n: "0 < length (rev demo_line)" by (simp add: demo_line_def)
  from restore_step_one_channel [OF h fair_demo_rng l] obtain colour line' where
    k: "colour = \<lfloor>demo_rng 1 * 3\<rfloor>"
    and r: "restore_step (1/2) demo_line (rev demo_line) demo_rng = Inr (line', advance (advance demo_rng))"
    and a0: "\<forall>px < length (rev demo_line). \<forall>c \<in> {0, 1, 2}.
        channel c (line' ! px) =
          (if c = colour then channel c (demo_line ! px) else channel c (rev demo_line ! px))"
    by blast
  from k c have "colour = 2" by simp
  with a0 have a: "\<forall>px < length (rev demo_line). \<forall>c \<in> {0, 1, 2}.
        channel c (line' ! px) =
          (if c = 2 then channel c (demo_line ! px) else channel c (rev demo_line ! px))"
    by simp
  from a n have b: "\<forall>c \<in> {0, 1, 2}.
        channel c (line' ! 0) =
          (if c = 2 then channel c (demo_line ! 0) else channel c (rev demo_line ! 0))"
    by blast
  have "channel 2 (line' ! 0) = channel 2 (demo_line ! 0)"
    using bspec [OF b, of 2] by simp
  moreover have "channel 0 (line' ! 0) = channel 0 (rev demo_line ! 0)"
    using bspec [OF b, of 0] by simp
  ultimately show ?thesis using r h fair_demo_rng l by blast
qed




text \<open>
  C4, as the code has it. A write whose coordinates fall outside the Canvas raises no
  exception out of the loop, and it ends the write-back of the Line: the pixel and all the
  pixels after it are not written.
\<close>

theorem write_back_outside_stops:
  assumes "row_offset dither g = Inr (off, g1)" "\<not> inside im (y + off, startW + int x)"
  shows "write_back dither im y startW x (v # vs) g = Inr (im, g1)"
  unfolding write_back_step using assms by simp

theorem write_back_outside_stops_witness:
  "row_offset True demo_rng = Inr (2, advance (advance demo_rng)) \<and>
   \<not> inside square_canvas (0 + 2, 0 + int 0) \<and>
   write_back True square_canvas 0 0 0 [(1, 1, 1), (2, 2, 2)] demo_rng =
     Inr (square_canvas, advance (advance demo_rng))"
proof -
  have n: "\<not> inside square_canvas (0 + 2, 0 + int 0)"
    by (simp add: inside_def square_canvas_def)
  from write_back_outside_stops [OF demo_offsets(1) n] demo_offsets(1) n
  show ?thesis by blast
qed

text \<open>
  C4, as stated, fails: with dithering, the first pixel is displaced outside the Canvas,
  and the second pixel, whose coordinates are inside, is not written.
\<close>

theorem write_back_dropped_only_counterexample:
  "write_back True square_canvas 0 0 0 [(1, 1, 1), (2, 2, 2)] demo_rng =
     Inr (square_canvas, advance (advance demo_rng)) \<and>
   row_offset True (advance (advance demo_rng)) = Inr (1, advance (advance (advance demo_rng))) \<and>
   inside square_canvas (0 + 1, 0 + int 1) \<and>
   pix square_canvas (0 + 1, 0 + int 1) \<noteq> (2, 2, 2)"
proof -
  have n: "\<not> inside square_canvas (0 + 2, 0 + int 0)"
    by (simp add: inside_def square_canvas_def)
  have "write_back True square_canvas 0 0 0 [(1, 1, 1), (2, 2, 2)] demo_rng =
     Inr (square_canvas, advance (advance demo_rng))"
    unfolding write_back_step demo_offsets using n by simp
  moreover have "inside square_canvas (0 + 1, 0 + int 1)"
    by (simp add: inside_def square_canvas_def)
  moreover have "pix square_canvas (0 + 1, 0 + int 1) \<noteq> (2, 2, 2)"
    by (simp add: square_canvas_def)
  ultimately show ?thesis using demo_offsets(2) by blast
qed

subsection \<open>Properties of the Block Tiling Driver\<close>

text \<open>
  C8. For every block the probability is \<open>1 - (blocks\<^sup>2 / (blocks + 1)\<^sup>2) ^ k\<close>, with \<open>k\<close> drawn
  from \<open>blocks - 4 + intensity\<close> (included) to \<open>blocks - 1 + intensity\<close> (excluded). That range
  holds three integers whatever the block count and the intensity, so that the draw never
  fails; with the clamped intensity its values are at least \<open>-1\<close>.
\<close>

theorem block_probability_range:
  assumes "fair g"
  shows "\<exists>k. blocks - 4 + clamp_intensity blocks intensity \<le> k \<and>
             k < blocks - 1 + clamp_intensity blocks intensity \<and> - 1 \<le> k \<and>
             randrange (blocks - 4 + clamp_intensity blocks intensity)
                       (blocks - 1 + clamp_intensity blocks intensity) g = Inr (k, advance g) \<and>
             (1 \<le> blocks \<longrightarrow>
                block_probability blocks (clamp_intensity blocks intensity) g =
                  Inr (1 - (real_of_int (blocks\<^sup>2) / real_of_int ((blocks + 1)\<^sup>2)) powi k, advance g))"
proof -
  define i where "i = clamp_intensity blocks intensity"
  have lo: "- 1 \<le> blocks - 4 + i" by (simp add: i_def clamp_intensity_def)
  have "blocks - 4 + i < blocks - 1 + i" by simp
  from randrange_range [OF assms this] obtain k where
    k: "randrange (blocks - 4 + i) (blocks - 1 + i) g = Inr (k, advance g)"
       "blocks - 4 + i \<le> k" "k < blocks - 1 + i"
    by blast
  have p: "block_probability blocks i g =
             Inr (1 - (real_of_int (blocks\<^sup>2) / real_of_int ((blocks + 1)\<^sup>2)) powi k, advance g)"
    if "1 \<le> blocks"
  proof -
    from that have "(blocks + 1)\<^sup>2 \<noteq> 0" "blocks\<^sup>2 \<noteq> 0" by simp_all
    then show ?thesis by (simp add: block_probability_def k(1))
  qed
  from k lo p show ?thesis unfolding i_def by (intro exI [of _ k]) auto
qed

theorem block_probability_range_witness:
  "fair demo_rng \<and>
   block_probability 9 (clamp_intensity 9 0) demo_rng = Inr (1 - (81/100) powi 5, advance demo_rng)"
proof -
  have r: "randrange (9 - 4 + clamp_intensity 9 0) (9 - 1 + clamp_intensity 9 0) demo_rng =
             Inr (5, advance demo_rng)"
    by (simp add: randrange_def clamp_intensity_def demo_rng_def)
  from block_probability_range [OF fair_demo_rng, of 9 0] obtain k where
    "randrange (9 - 4 + clamp_intensity 9 0) (9 - 1 + clamp_intensity 9 0) demo_rng =
       Inr (k, advance demo_rng)"
    and b: "block_probability 9 (clamp_intensity 9 0) demo_rng =
                  Inr (1 - (real_of_int (9\<^sup>2) / real_of_int ((9 + 1)\<^sup>2)) powi k, advance demo_rng)"
    by auto
  with r have "k = 5" by simp
  with b fair_demo_rng show ?thesis by simp
qed

text \<open>The loops: when they stop, when they return, and when they run forever.\<close>

lemma loop_condition:
  "real_of_int c + real_of_int (b * 2) / 3 \<le> real_of_int l \<longleftrightarrow> 3 * c + 2 * b \<le> 3 * l"
proof -
  have "real_of_int c + real_of_int (b * 2) / 3 \<le> real_of_int l \<longleftrightarrow>
        real_of_int (3 * c + 2 * b) \<le> real_of_int (3 * l)"
    by (simp add: field_simps)
  then show ?thesis by (simp only: of_int_le_iff)
qed

lemma tile_loop_stop:
  "\<not> 3 * c + 2 * b \<le> 3 * l \<Longrightarrow> tile_loop b l st body c s = Some (Inr s)"
  by (subst tile_loop.simps) (simp only: loop_condition if_False)

lemma tile_loop_step:
  "3 * c + 2 * b \<le> 3 * l \<Longrightarrow>
   tile_loop b l st body c s =
     Option.bind (body c s)
       (\<lambda>r. case r of Inl e \<Rightarrow> Some (Inl e)
                     | Inr s' \<Rightarrow> tile_loop b l st body (c + st) s')"
  by (subst tile_loop.simps) (simp only: loop_condition if_True)

lemma tile_loop_terminates:
  assumes "1 \<le> st" "Inv s"
    and body: "\<And>c s. Inv s \<Longrightarrow> \<exists>s'. body c s = Some (Inr s') \<and> Inv s'"
  shows "\<exists>s'. tile_loop b l st body c s = Some (Inr s') \<and> Inv s'"
  using assms(2)
proof (induction "nat (3 * l - 3 * c - 2 * b + 3)" arbitrary: c s rule: less_induct)
  case less
  show ?case
  proof (cases "3 * c + 2 * b \<le> 3 * l")
    case False
    with less.prems show ?thesis by (simp add: tile_loop_stop)
  next
    case True
    from body [OF less.prems] obtain s1 where s1: "body c s = Some (Inr s1)" "Inv s1" by blast
    from True assms(1) have "3 * l - 3 * (c + st) - 2 * b + 3 < 3 * l - 3 * c - 2 * b + 3"
      "0 < 3 * l - 3 * c - 2 * b + 3" by simp_all
    then have "nat (3 * l - 3 * (c + st) - 2 * b + 3) < nat (3 * l - 3 * c - 2 * b + 3)"
      by (simp only: zless_nat_conj)
    from less.hyps [OF this s1(2)] obtain s' where
      "tile_loop b l st body (c + st) s1 = Some (Inr s')" "Inv s'" by blast
    with True s1 show ?thesis by (simp add: tile_loop_step)
  qed
qed

lemma tile_loop_preserves:
  assumes body: "\<And>c s r. Inv s \<Longrightarrow> body c s = Some r \<Longrightarrow> \<exists>s'. r = Inr s' \<and> Inv s'"
    and run: "tile_loop b l st body c s = Some r" and inv: "Inv s"
  shows "\<exists>s'. r = Inr s' \<and> Inv s'"
proof -
  have "body = body \<longrightarrow> Inv s \<longrightarrow> (\<exists>s'. r = Inr s' \<and> Inv s')"
  proof (rule tile_loop.raw_induct
      [where P = "\<lambda>b' l' st' body' c s r. body' = body \<longrightarrow> Inv s \<longrightarrow> (\<exists>s'. r = Inr s' \<and> Inv s')",
        OF _ run])
    fix f :: "int \<Rightarrow> int \<Rightarrow> int \<Rightarrow> (int \<Rightarrow> 'a \<Rightarrow> (py_error + 'a) option) \<Rightarrow> int \<Rightarrow> 'a \<Rightarrow> (py_error + 'a) option"
    fix b' l' st' body' c s r
    assume IH: "\<And>b' l' st' body' c s r. f b' l' st' body' c s = Some r \<Longrightarrow>
                  body' = body \<longrightarrow> Inv s \<longrightarrow> (\<exists>s'. r = Inr s' \<and> Inv s')"
      and F: "(if real_of_int c + real_of_int (b' * 2) / 3 \<le> real_of_int l'
               then Option.bind (body' c s)
                      (\<lambda>r. case r of Inl e \<Rightarrow> Some (Inl e)
                                    | Inr s' \<Rightarrow> f b' l' st' body' (c + st') s')
               else Some (Inr s)) = Some r"
    show "body' = body \<longrightarrow> Inv s \<longrightarrow> (\<exists>s'. r = Inr s' \<and> Inv s')"
    proof (intro impI)
      assume eq: "body' = body" and i: "Inv s"
      show "\<exists>s'. r = Inr s' \<and> Inv s'"
      proof (cases "real_of_int c + real_of_int (b' * 2) / 3 \<le> real_of_int l'")
        case False
        with F i show ?thesis by auto
      next
        case True
        with F obtain r1 where r1: "body' c s = Some r1"
          and rest: "(case r1 of Inl e \<Rightarrow> Some (Inl e)
                              | Inr s' \<Rightarrow> f b' l' st' body' (c + st') s') = Some r"
          by (auto simp: bind_eq_Some_conv)
        from body [OF i] r1 eq obtain s1 where s1: "r1 = Inr s1" "Inv s1" by blast
        with rest have "f b' l' st' body' (c + st') s1 = Some r" by simp
        from IH [OF this] eq s1(2) show ?thesis by blast
      qed
    qed
  qed
  with inv show ?thesis by blast
qed

lemma tile_loop_diverges:
  assumes neg: "st \<le> 0" and cond: "3 * c + 2 * b \<le> 3 * l" and inv: "Inv s"
    and body: "\<And>c s r. Inv s \<Longrightarrow> body c s = Some r \<Longrightarrow> \<exists>s'. r = Inr s' \<and> Inv s'"
  shows "tile_loop b l st body c s = None"
proof (cases "tile_loop b l st body c s")
  case None
  then show ?thesis .
next
  case (Some r)
  have "b = b \<and> l = l \<and> st = st \<and> body = body \<and> 3 * c + 2 * b \<le> 3 * l \<and> Inv s \<longrightarrow> False"
  proof (rule tile_loop.raw_induct
      [where P = "\<lambda>b' l' st' body' c s r.
                    b' = b \<and> l' = l \<and> st' = st \<and> body' = body \<and> 3 * c + 2 * b \<le> 3 * l \<and> Inv s
                    \<longrightarrow> False",
        OF _ Some])
    fix f :: "int \<Rightarrow> int \<Rightarrow> int \<Rightarrow> (int \<Rightarrow> 'a \<Rightarrow> (py_error + 'a) option) \<Rightarrow> int \<Rightarrow> 'a \<Rightarrow> (py_error + 'a) option"
    fix b' l' st' body' c s r
    assume IH: "\<And>b' l' st' body' c s r. f b' l' st' body' c s = Some r \<Longrightarrow>
                  b' = b \<and> l' = l \<and> st' = st \<and> body' = body \<and> 3 * c + 2 * b \<le> 3 * l \<and> Inv s
                  \<longrightarrow> False"
      and F: "(if real_of_int c + real_of_int (b' * 2) / 3 \<le> real_of_int l'
               then Option.bind (body' c s)
                      (\<lambda>r. case r of Inl e \<Rightarrow> Some (Inl e)
                                    | Inr s' \<Rightarrow> f b' l' st' body' (c + st') s')
               else Some (Inr s)) = Some r"
    show "b' = b \<and> l' = l \<and> st' = st \<and> body' = body \<and> 3 * c + 2 * b \<le> 3 * l \<and> Inv s
          \<longrightarrow> False"
    proof (intro impI)
      assume a: "b' = b \<and> l' = l \<and> st' = st \<and> body' = body \<and> 3 * c + 2 * b \<le> 3 * l \<and> Inv s"
      then have "real_of_int c + real_of_int (b' * 2) / 3 \<le> real_of_int l'"
        by (simp only: loop_condition)
      with F obtain r1 where r1: "body' c s = Some r1"
        and rest: "(case r1 of Inl e \<Rightarrow> Some (Inl e)
                            | Inr s' \<Rightarrow> f b' l' st' body' (c + st') s') = Some r"
        by (auto simp: bind_eq_Some_conv)
      from a have i: "Inv s" and eq: "body' = body" by simp_all
      from body [OF i] r1 eq obtain s1 where s1: "r1 = Inr s1" "Inv s1" by blast
      with rest have f: "f b' l' st' body' (c + st') s1 = Some r" by simp
      from a neg have "3 * (c + st') + 2 * b \<le> 3 * l" by simp
      with IH [OF f] a s1(2) show False by blast
    qed
  qed
  with cond inv show ?thesis by blast
qed

text \<open>\<open>pixSort\<close> always returns, and it keeps the size of the canvas.\<close>

lemma row_offset_fair:
  "fair g \<Longrightarrow> \<exists>off g1. row_offset dither g = Inr (off, g1) \<and> fair g1"
  by (simp add: row_offset_eq fair_advance)

lemma write_back_ok:
  "fair g \<Longrightarrow>
   \<exists>im' g'. write_back dither im y startW x vs g = Inr (im', g') \<and> fair g' \<and>
            width im' = width im \<and> height im' = height im"
proof (induction vs arbitrary: im x g)
  case Nil
  then show ?case by simp
next
  case (Cons v vs)
  from row_offset_fair [OF Cons.prems] obtain off g1 where
    ro: "row_offset dither g = Inr (off, g1)" "fair g1" by blast
  show ?case
  proof (cases "inside im (y + off, startW + int x)")
    case True
    from Cons.IH [OF ro(2), of "im\<lparr>pix := (pix im)((y + off, startW + int x) := v)\<rparr>" "Suc x"]
    show ?thesis unfolding write_back_step ro(1) using True by simp
  next
    case False
    with ro show ?thesis unfolding write_back_step by simp
  qed
qed

lemma partialSort_ok:
  fixes ls :: "pixel list"
  assumes "2 \<le> length ls" "fair g"
  shows "\<exists>res g'. partialSort ls g = Inr (res, g') \<and> length res = length ls \<and> fair g'"
proof -
  from bounds_in_range [OF assms] assms(1)
  have le: "lower_bound (length ls) g \<le> upper_bound (length ls) g"
    "upper_bound (length ls) g \<le> length ls" by linarith+
  have f: "fair (advance (advance (advance (advance g))))"
    using assms(2) by (simp add: fair_advance)
  show ?thesis
    unfolding partialSort_unfold [OF assms] Let_def using le f by auto
qed

lemma sort_step_ok:
  assumes "fair g"
  shows "\<exists>line' g'. sort_step line g = Inr (line', g') \<and> length line' = length line \<and> fair g'"
proof (cases "length line < 2")
  case True
  with assms show ?thesis by (simp add: sort_step_short)
next
  case False
  then have "2 \<le> length line" by simp
  from partialSort_ok [OF this assms] obtain res g' where
    "partialSort line g = Inr (res, g')" "length res = length line" "fair g'" by blast
  then show ?thesis by (simp add: sort_step_def)
qed

lemma restore_step_ok:
  assumes "fair g" "length originalLine = length line"
  shows "\<exists>line' g'. restore_step p originalLine line g = Inr (line', g') \<and> fair g'"
proof -
  have f1: "fair (advance g)" using assms(1) by (rule fair_advance)
  then have f2: "fair (advance (advance g))" by (rule fair_advance)
  from f1 f2 show ?thesis
    using assms(2) by (simp add: restore_step_def probability_eq randrange_def restore_channel_def)
qed

lemma pixSort_row_ok:
  assumes "fair g"
  shows "\<exists>im' g'. pixSort_row dither im startW endW p y g = Inr (im', g') \<and> fair g' \<and>
            width im' = width im \<and> height im' = height im"
proof (cases "g 0 < p")
  case False
  with assms show ?thesis by (simp add: pixSort_row_def probability_eq fair_advance)
next
  case True
  obtain line where rd: "read_line im y [startW..endW - 1] = Inr line"
    using read_line_total by blast
  from sort_step_ok [OF fair_advance [OF assms]] obtain line1 g2 where
    s: "sort_step line (advance g) = Inr (line1, g2)" "length line1 = length line" "fair g2"
    by blast
  from restore_step_ok [OF s(3), of line line1 p] s(2) obtain line2 g3 where
    r: "restore_step p line line1 g2 = Inr (line2, g3)" "fair g3" by auto
  from write_back_ok [OF r(2)] obtain im' g' where
    w: "write_back dither im y startW 0 line2 g3 = Inr (im', g')" "fair g'"
       "width im' = width im" "height im' = height im" by blast
  from True rd s r w show ?thesis by (simp add: pixSort_row_def probability_eq)
qed

lemma pixSort_rows_ok:
  "fair g \<Longrightarrow>
   \<exists>im' g'. pixSort_rows dither im startW endW p ys g = Inr (im', g') \<and> fair g' \<and>
            width im' = width im \<and> height im' = height im"
proof (induction ys arbitrary: im g)
  case Nil
  then show ?case by simp
next
  case (Cons y ys)
  from pixSort_row_ok [OF Cons.prems] obtain im1 g1 where
    r: "pixSort_row dither im startW endW p y g = Inr (im1, g1)" "fair g1"
       "width im1 = width im" "height im1 = height im" by blast
  from Cons.IH [OF r(2), of im1] r show ?case by auto
qed

lemma pixSort_ok:
  "fair g \<Longrightarrow>
   \<exists>im' g'. pixSort dither im startW startH endW endH p g = Inr (im', g') \<and> fair g' \<and>
            width im' = width im \<and> height im' = height im"
  unfolding pixSort_def by (rule pixSort_rows_ok)

lemma block_probability_ok:
  assumes "fair g" "1 \<le> blocks"
  shows "\<exists>p g1. block_probability blocks intensity g = Inr (p, g1) \<and> fair g1"
proof -
  have "blocks - 4 + intensity < blocks - 1 + intensity" by simp
  from randrange_range [OF assms(1) this] obtain k where
    k: "randrange (blocks - 4 + intensity) (blocks - 1 + intensity) g = Inr (k, advance g)"
    by blast
  from assms(2) have "(blocks + 1)\<^sup>2 \<noteq> 0" "blocks\<^sup>2 \<noteq> 0" by simp_all
  then show ?thesis using assms(1) by (simp add: block_probability_def k fair_advance)
qed

lemma glitch_block_ok:
  assumes "fair g" "1 \<le> blocks"
  shows "\<exists>im' g'. glitch_block cfg blocks wBlock hBlock currentHeight currentWidth (im, g) =
                    Some (Inr (im', g')) \<and> fair g' \<and>
                  width im' = width im \<and> height im' = height im"
proof -
  from block_probability_ok [OF assms] obtain p g1 where
    b: "block_probability blocks (INTENSITY cfg) g = Inr (p, g1)" "fair g1" by blast
  from pixSort_ok [OF b(2)] b(1) show ?thesis by (simp add: glitch_block_def)
qed

lemma sdiv_nonneg: "0 \<le> a \<Longrightarrow> 0 < b \<Longrightarrow> a sdiv b = a div (b::int)"
  by (cases "a = 0") (simp_all add: signed_divide_int_def)

lemma tiling_terminates:
  assumes "1 \<le> stride blocks wBlock" "1 \<le> stride blocks hBlock" "Inv s"
    and act: "\<And>ch cw s. Inv s \<Longrightarrow> \<exists>s'. act ch cw s = Some (Inr s') \<and> Inv s'"
  shows "\<exists>s'. tiling cfg blocks wBlock hBlock act s = Some (Inr s') \<and> Inv s'"
  unfolding tiling_def
proof (rule tile_loop_terminates [where Inv = Inv, OF assms(2,3)])
  fix c s
  assume "Inv s"
  then show "\<exists>s'. tile_loop wBlock
            ((if IMAGE_HEIGHT cfg \<le> IMAGE_WIDTH cfg then IMAGE_WIDTH cfg else IMAGE_HEIGHT cfg) * 2)
            (stride blocks wBlock) (act c) 0 s = Some (Inr s') \<and> Inv s'"
    by (rule tile_loop_terminates [where Inv = Inv, OF assms(1)]) (rule act)
qed


lemma tiling_diverges:
  assumes bad: "stride blocks wBlock \<le> 0 \<or> stride blocks hBlock \<le> 0"
    and enter: "wBlock \<le> 3 * (if IMAGE_WIDTH cfg \<ge> IMAGE_HEIGHT cfg then IMAGE_WIDTH cfg else IMAGE_HEIGHT cfg)"
      "hBlock \<le> 3 * (if IMAGE_HEIGHT cfg \<ge> IMAGE_WIDTH cfg then IMAGE_HEIGHT cfg else IMAGE_WIDTH cfg)"
    and inv: "Inv s"
    and act: "\<And>ch cw s r. Inv s \<Longrightarrow> act ch cw s = Some r \<Longrightarrow> \<exists>s'. r = Inr s' \<and> Inv s'"
  shows "tiling cfg blocks wBlock hBlock act s = None"
proof -
  let ?lw = "(if IMAGE_WIDTH cfg \<ge> IMAGE_HEIGHT cfg then IMAGE_WIDTH cfg else IMAGE_HEIGHT cfg) * 2"
  let ?lh = "(if IMAGE_HEIGHT cfg \<ge> IMAGE_WIDTH cfg then IMAGE_HEIGHT cfg else IMAGE_WIDTH cfg) * 2"
  let ?inner = "\<lambda>currentHeight s1. tile_loop wBlock ?lw (stride blocks wBlock)
                  (\<lambda>currentWidth s2. act currentHeight currentWidth s2) 0 s1"
  from enter have cw: "3 * 0 + 2 * wBlock \<le> 3 * ?lw" and ch: "3 * 0 + 2 * hBlock \<le> 3 * ?lh"
    by simp_all
  have inner: "\<exists>s'. r = Inr s' \<and> Inv s'" if "Inv s" "?inner c s = Some r" for c s r
    using that(2,1)
    by (rule tile_loop_preserves [where Inv = Inv and body = "act c", rotated 1]) (rule act)
  show ?thesis
  proof (cases "stride blocks hBlock \<le> 0")
    case True
    show ?thesis unfolding tiling_def
      by (rule tile_loop_diverges [where Inv = Inv, OF True ch inv]) (rule inner)
  next
    case False
    with bad have w: "stride blocks wBlock \<le> 0" by simp
    have "?inner 0 s = None"
      by (rule tile_loop_diverges [where Inv = Inv, OF w cw inv]) (rule act)
    then show ?thesis unfolding tiling_def by (subst tile_loop_step [OF ch]) simp
  qed
qed

lemma glitch_block_total:
  assumes "1 \<le> blocks" "fair (snd s) \<and> width (fst s) = w \<and> height (fst s) = h"
  shows "\<exists>s'. glitch_block cfg blocks wBlock hBlock ch cw s = Some (Inr s') \<and>
              (fair (snd s') \<and> width (fst s') = w \<and> height (fst s') = h)"
proof -
  obtain im g where s: "s = (im, g)" by (cases s)
  with assms(2) have "fair g" by simp
  from glitch_block_ok [OF this assms(1), of cfg wBlock hBlock ch cw im] s assms(2)
  show ?thesis by auto
qed

lemma glitch_returns:
  assumes "1 \<le> blocks" "fair g"
    and "1 \<le> stride blocks (IMAGE_WIDTH cfg sdiv blocks)"
    and "1 \<le> stride blocks (IMAGE_HEIGHT cfg sdiv blocks)"
  shows "\<exists>im' g'. glitch rot cfg im blocks rotation g = Some (Inr (im', g')) \<and>
           (rotation = 0 \<longrightarrow>
              width im' = width (glitch_canvas rot cfg im blocks rotation) \<and>
              height im' = height (glitch_canvas rot cfg im blocks rotation))"
proof -
  let ?c = "glitch_canvas rot cfg im blocks rotation"
  let ?Inv = "\<lambda>s. fair (snd s) \<and> width (fst s) = width ?c \<and> height (fst s) = height ?c"
  have "?Inv (?c, g)" using assms(2) by simp
  from tiling_terminates [where Inv = ?Inv, OF assms(3,4) this]
    glitch_block_total [OF assms(1)]
  obtain s' where
    t: "tiling cfg blocks (IMAGE_WIDTH cfg sdiv blocks) (IMAGE_HEIGHT cfg sdiv blocks)
          (glitch_block cfg blocks (IMAGE_WIDTH cfg sdiv blocks) (IMAGE_HEIGHT cfg sdiv blocks))
          (?c, g) = Some (Inr s')" and i: "?Inv s'"
    by blast
  obtain im3 g' where s': "s' = (im3, g')" by (cases s')
  from assms(1) have "blocks \<noteq> 0" by simp
  with t s' i show ?thesis by (simp add: glitch_def Let_def)
qed


lemma glitch_diverges:
  assumes "1 \<le> blocks" "fair g" "1 \<le> IMAGE_WIDTH cfg" "1 \<le> IMAGE_HEIGHT cfg"
    and bad: "stride blocks (IMAGE_WIDTH cfg sdiv blocks) \<le> 0 \<or>
              stride blocks (IMAGE_HEIGHT cfg sdiv blocks) \<le> 0"
  shows "glitch rot cfg im blocks rotation g = None"
proof -
  let ?c = "glitch_canvas rot cfg im blocks rotation"
  let ?Inv = "\<lambda>s. fair (snd s) \<and> width (fst s) = width ?c \<and> height (fst s) = height ?c"
  have w: "IMAGE_WIDTH cfg sdiv blocks = IMAGE_WIDTH cfg div blocks"
    and h: "IMAGE_HEIGHT cfg sdiv blocks = IMAGE_HEIGHT cfg div blocks"
    using assms(1,3,4) by (simp_all add: sdiv_nonneg)
  have "IMAGE_WIDTH cfg div blocks \<le> IMAGE_WIDTH cfg" "IMAGE_HEIGHT cfg div blocks \<le> IMAGE_HEIGHT cfg"
    using assms(1,3,4) by (simp_all add: int_div_le_self)
  then have e1: "IMAGE_WIDTH cfg sdiv blocks
      \<le> 3 * (if IMAGE_WIDTH cfg \<ge> IMAGE_HEIGHT cfg then IMAGE_WIDTH cfg else IMAGE_HEIGHT cfg)"
    and e2: "IMAGE_HEIGHT cfg sdiv blocks
      \<le> 3 * (if IMAGE_HEIGHT cfg \<ge> IMAGE_WIDTH cfg then IMAGE_HEIGHT cfg else IMAGE_WIDTH cfg)"
    unfolding w h using assms(3,4) by auto
  have i: "?Inv (?c, g)" using assms(2) by simp
  have "tiling cfg blocks (IMAGE_WIDTH cfg sdiv blocks) (IMAGE_HEIGHT cfg sdiv blocks)
          (glitch_block cfg blocks (IMAGE_WIDTH cfg sdiv blocks) (IMAGE_HEIGHT cfg sdiv blocks))
          (?c, g) = None"
  proof (rule tiling_diverges [where Inv = ?Inv, OF bad e1 e2 i])
    fix ch cw s r
    assume "?Inv s"
      and "glitch_block cfg blocks (IMAGE_WIDTH cfg sdiv blocks) (IMAGE_HEIGHT cfg sdiv blocks)
             ch cw s = Some r"
    with glitch_block_total [OF assms(1), of s "width ?c" "height ?c" cfg
        "IMAGE_WIDTH cfg sdiv blocks" "IMAGE_HEIGHT cfg sdiv blocks" ch cw]
    show "\<exists>s'. r = Inr s' \<and> ?Inv s'" by auto
  qed
  with assms(1) show ?thesis by (simp add: glitch_def Let_def)
qed

lemma stride_pos:
  "blocks = 1 \<Longrightarrow> 1 \<le> b \<Longrightarrow> 1 \<le> stride blocks b"
  "1 < blocks \<Longrightarrow> 2 \<le> b \<Longrightarrow> 1 \<le> stride blocks b"
  "1 < blocks \<Longrightarrow> b = 1 \<Longrightarrow> stride blocks b = 0"
  by (simp_all add: stride_def sdiv_nonneg)

text \<open>
  C10. For a block count of at least 1 on an image of at least one pixel, the nested loops
  of \<open>glitch\<close> return if and only if both strides are at least 1, and run forever
  otherwise. They return when the block count is 1, and when it is larger and both block
  dimensions are at least 2. When the block count is larger than 1 and the width or the
  height divided by it is 1, the stride is 0 and \<open>glitch\<close> never returns: a block dimension
  of at least 1 is not enough.
\<close>

theorem glitch_terminates_iff:
  assumes "1 \<le> blocks" "1 \<le> IMAGE_WIDTH cfg" "1 \<le> IMAGE_HEIGHT cfg" "fair g"
  shows "((\<exists>im' g'. glitch rot cfg im blocks rotation g = Some (Inr (im', g'))) \<longleftrightarrow>
            1 \<le> stride blocks (IMAGE_WIDTH cfg sdiv blocks) \<and>
            1 \<le> stride blocks (IMAGE_HEIGHT cfg sdiv blocks)) \<and>
         (glitch rot cfg im blocks rotation g = None \<longleftrightarrow>
            \<not> (1 \<le> stride blocks (IMAGE_WIDTH cfg sdiv blocks) \<and>
               1 \<le> stride blocks (IMAGE_HEIGHT cfg sdiv blocks))) \<and>
         (blocks = 1 \<longrightarrow> (\<exists>im' g'. glitch rot cfg im blocks rotation g = Some (Inr (im', g')))) \<and>
         (1 < blocks \<and> 2 \<le> IMAGE_WIDTH cfg sdiv blocks \<and> 2 \<le> IMAGE_HEIGHT cfg sdiv blocks \<longrightarrow>
            (\<exists>im' g'. glitch rot cfg im blocks rotation g = Some (Inr (im', g')))) \<and>
         (1 < blocks \<and> (IMAGE_WIDTH cfg div blocks = 1 \<or> IMAGE_HEIGHT cfg div blocks = 1) \<longrightarrow>
            glitch rot cfg im blocks rotation g = None)"
proof -
  let ?ok = "1 \<le> stride blocks (IMAGE_WIDTH cfg sdiv blocks) \<and>
             1 \<le> stride blocks (IMAGE_HEIGHT cfg sdiv blocks)"
  let ?ret = "\<exists>im' g'. glitch rot cfg im blocks rotation g = Some (Inr (im', g'))"
  have w: "IMAGE_WIDTH cfg sdiv blocks = IMAGE_WIDTH cfg div blocks"
    and h: "IMAGE_HEIGHT cfg sdiv blocks = IMAGE_HEIGHT cfg div blocks"
    using assms(1,2,3) by (simp_all add: sdiv_nonneg)
  have yes: ?ret if ?ok
    using glitch_returns [OF assms(1,4), of cfg rot im rotation] that by blast
  have no: "glitch rot cfg im blocks rotation g = None" if "\<not> ?ok"
  proof (rule glitch_diverges [OF assms(1,4,2,3)])
    from that show "stride blocks (IMAGE_WIDTH cfg sdiv blocks) \<le> 0 \<or>
                    stride blocks (IMAGE_HEIGHT cfg sdiv blocks) \<le> 0" by linarith
  qed
  have a: "?ret \<longleftrightarrow> ?ok" using yes no by (cases ?ok) auto
  have b: "glitch rot cfg im blocks rotation g = None \<longleftrightarrow> \<not> ?ok"
    using yes no by (cases ?ok) auto
  have c: ?ret if "blocks = 1"
  proof (rule yes)
    from that assms(2,3) show ?ok by (simp add: stride_def)
  qed
  have d: ?ret if "1 < blocks \<and> 2 \<le> IMAGE_WIDTH cfg sdiv blocks \<and> 2 \<le> IMAGE_HEIGHT cfg sdiv blocks"
  proof (rule yes)
    from that show ?ok by (simp add: stride_pos(2))
  qed
  have e: "glitch rot cfg im blocks rotation g = None"
    if "1 < blocks \<and> (IMAGE_WIDTH cfg div blocks = 1 \<or> IMAGE_HEIGHT cfg div blocks = 1)"
  proof (rule no)
    from that have "stride blocks (IMAGE_WIDTH cfg sdiv blocks) = 0 \<or>
                    stride blocks (IMAGE_HEIGHT cfg sdiv blocks) = 0"
      unfolding w h using stride_pos(3) [of blocks 1] by auto
    then show "\<not> ?ok" by linarith
  qed
  from a b c d e show ?thesis by blast
qed

theorem glitch_terminates_iff_witness:
  "1 \<le> (2::int) \<and> 1 \<le> IMAGE_WIDTH demo_cfg \<and> 1 \<le> IMAGE_HEIGHT demo_cfg \<and> fair demo_rng \<and>
   glitch (\<lambda>angle im. im) demo_cfg square_canvas 2 0 demo_rng = None \<and>
   (\<exists>im' g'. glitch (\<lambda>angle im. im) demo_cfg square_canvas 1 0 demo_rng = Some (Inr (im', g')))"
proof -
  have w: "1 \<le> IMAGE_WIDTH demo_cfg" and h: "1 \<le> IMAGE_HEIGHT demo_cfg"
    by (simp_all add: demo_cfg_def)
  have d: "(1::int) < 2 \<and> (IMAGE_WIDTH demo_cfg div 2 = 1 \<or> IMAGE_HEIGHT demo_cfg div 2 = 1)"
    by (simp add: demo_cfg_def)
  have two: "1 \<le> (2::int)" and one: "1 \<le> (1::int)" by simp_all
  from glitch_terminates_iff [OF two w h fair_demo_rng, of "\<lambda>angle im. im" square_canvas 0] d
  have n: "glitch (\<lambda>angle im. im) demo_cfg square_canvas 2 0 demo_rng = None" by blast
  from glitch_terminates_iff [OF one w h fair_demo_rng, of "\<lambda>angle im. im" square_canvas 0]
  have "\<exists>im' g'. glitch (\<lambda>angle im. im) demo_cfg square_canvas 1 0 demo_rng = Some (Inr (im', g'))"
    by blast
  with n w h fair_demo_rng show ?thesis by simp
qed

subsection \<open>Properties of the Rotation/Crop Compensator\<close>





subsection \<open>The blocks that the loops generate\<close>












end
